theory Spec2Isabelle
  imports Main "HOL-Library.Char_ord" "HOL-Library.List_Lexorder" "HOL-Library.Multiset"
begin

section \<open>JavaScript values\<close>

text \<open>
  The values that \<^verbatim>\<open>JSON.parse\<close> can produce. A number carries its decimal rendering
  (the scripts never compute with a field, they only test and print it). An object is the
  list of its properties in enumeration order; a property read that finds nothing is
  \<open>None\<close>, JavaScript's \<^verbatim>\<open>undefined\<close>.
\<close>

datatype jv =
    JNull
  | JBool bool
  | JNum string
  | JStr string
  | JArr "jv list"
  | JObj "(string \<times> jv) list"

type_synonym obj = "(string \<times> jv) list"

text \<open>A log snapshot: timestamp key to log entry, every entry an object.\<close>

type_synonym snapshot = "(string \<times> obj) list"

datatype js_error = SyntaxError | TypeError

text \<open>
  A callback either runs to its end or is left by an uncaught exception; in both cases
  the effects it had so far stay.
\<close>

datatype 'a outcome = Done 'a | Threw js_error 'a

text \<open>\<^verbatim>\<open>Object.keys\<close>: every key once, in enumeration order.\<close>

definition object_keys :: "(string \<times> 'v) list \<Rightarrow> string list" where
  "object_keys ob = remdups (map fst ob)"

text \<open>\<^verbatim>\<open>delete ob[k]\<close>.\<close>

definition delete_prop :: "string \<Rightarrow> (string \<times> 'v) list \<Rightarrow> (string \<times> 'v) list" where
  "delete_prop k ob = filter (\<lambda>kv. fst kv \<noteq> k) ob"

text \<open>
  \<^verbatim>\<open>v[k]\<close> for a value \<open>v\<close> that may be \<^verbatim>\<open>undefined\<close>: reading a property of
  \<^verbatim>\<open>undefined\<close> or \<^verbatim>\<open>null\<close> raises a TypeError, reading one of a primitive or an array
  gives \<^verbatim>\<open>undefined\<close> for the four contact keys used here.
\<close>

fun get_prop :: "jv option \<Rightarrow> string \<Rightarrow> js_error + jv option" where
  "get_prop None k = Inl TypeError"
| "get_prop (Some JNull) k = Inl TypeError"
| "get_prop (Some (JObj ob)) k = Inr (map_of ob k)"
| "get_prop (Some v) k = Inr None"

text \<open>Truthiness, as \<^verbatim>\<open>||\<close> and \<^verbatim>\<open>?:\<close> test it.\<close>

fun truthy :: "jv option \<Rightarrow> bool" where
  "truthy None = False"
| "truthy (Some JNull) = False"
| "truthy (Some (JBool b)) = b"
| "truthy (Some (JNum r)) = (r \<noteq> ''0'')"
| "truthy (Some (JStr s)) = (s \<noteq> [])"
| "truthy (Some (JArr xs)) = True"
| "truthy (Some (JObj ob)) = True"

fun join_comma :: "string list \<Rightarrow> string" where
  "join_comma [] = []"
| "join_comma [s] = s"
| "join_comma (s # t # ss) = s @ '','' @ join_comma (t # ss)"

text \<open>String conversion of a value, as string concatenation applies it.\<close>

fun to_string :: "jv \<Rightarrow> string" where
  "to_string JNull = ''null''"
| "to_string (JBool b) = (if b then ''true'' else ''false'')"
| "to_string (JNum r) = r"
| "to_string (JStr s) = s"
| "to_string (JArr xs) =
     join_comma (map (\<lambda>x. case x of JNull \<Rightarrow> [] | _ \<Rightarrow> to_string x) xs)"
| "to_string (JObj ob) = ''[object Object]''"

definition to_string_opt :: "jv option \<Rightarrow> string" where
  "to_string_opt v = (case v of None \<Rightarrow> ''undefined'' | Some x \<Rightarrow> to_string x)"

text \<open>
  Modelled from the spec: \<^verbatim>\<open>String.prototype.format\<close> is not among the source files. Each
  placeholder \<^verbatim>\<open>{i}\<close> of the template is replaced by the string conversion of the i-th
  argument, and a missing sub-field renders as the literal string \<^verbatim>\<open>undefined\<close>.
\<close>

definition format_arg :: "jv option \<Rightarrow> string" where
  "format_arg v = to_string_opt v"

section \<open>The history page\<close>

text \<open>
  One row handed to the table by \<^verbatim>\<open>t.row.add\<close>: its five cells, and the timestamp key
  it was built from (\<open>row_ts\<close> is kept to name the row; the first cell holds only the date
  part of the key).
\<close>

record row =
  row_ts :: string
  col_time :: string
  col_trigger :: string
  col_contact :: string
  col_message :: string
  col_log :: string

text \<open>The calls made to the JSON viewer and to the preview texts, by panel id.\<close>

datatype panel_call =
    ContactPanel string "jv option"
  | ContactText string string
  | MessagePanel string obj
  | MessageText string string

text \<open>
  The ordering of the table: set to column 1 ascending when the table is created, and to
  column 0 with direction \<^verbatim>\<open>'des'\<close> at the end of every \<^verbatim>\<open>append_log\<close>.
\<close>

datatype ordering = Col1Asc | Col0Des

record page =
  log_backup :: string
  user_status_backup :: string
  running :: bool
  status_line :: string
  table_rows :: "row list"
  table_order :: ordering
  panel_calls :: "panel_call list"
  btn_visible :: bool
  btn_handlers :: "(snapshot \<times> string list) list"
  alerts :: "string list"
  notifications :: "bool list"
  uncaught :: "js_error list"
  scheduled :: bool

text \<open>
  The page as it is loaded: nothing stored, an empty table, the button hidden, and the
  first call of \<^verbatim>\<open>fetch_log\<close> pending.
\<close>

definition init_page :: page where
  "init_page = \<lparr> log_backup = [], user_status_backup = [], running = False,
     status_line = [], table_rows = [], table_order = Col1Asc, panel_calls = [],
     btn_visible = False, btn_handlers = [], alerts = [], notifications = [],
     uncaught = [], scheduled = True \<rparr>"

subsection \<open>\<^verbatim>\<open>append_log\<close> of history_table.js\<close>

text \<open>\<^verbatim>\<open>timestamp.replace(/[ /:,]/g,'')\<close>.\<close>

definition json_panel_id :: "string \<Rightarrow> string" where
  "json_panel_id timestamp = filter (\<lambda>c. c \<notin> set '' /:,'') timestamp"

text \<open>\<^verbatim>\<open>timestamp.split(",")[0]\<close>.\<close>

definition split_comma_first :: "string \<Rightarrow> string" where
  "split_comma_first timestamp = takeWhile (\<lambda>c. c \<noteq> CHR '','') timestamp"

definition internal_fields :: "string list" where
  "internal_fields = [''trigger'', ''error'', ''log'', ''timestamp'', ''type'']"

text \<open>The five \<^verbatim>\<open>delete\<close> statements, in the order of the source.\<close>

definition strip_internal :: "obj \<Rightarrow> obj" where
  "strip_internal Message =
     delete_prop ''type'' (delete_prop ''timestamp'' (delete_prop ''log''
       (delete_prop ''error'' (delete_prop ''trigger'' Message))))"

definition make_row :: "string \<Rightarrow> obj \<Rightarrow> row" where
  \<open>make_row timestamp Message =
     \<lparr> row_ts = timestamp,
       col_time = split_comma_first timestamp,
       col_trigger = ''<span class="label label-info">'' @
         (if truthy (map_of Message ''trigger'')
          then format_arg (map_of Message ''trigger'') else []) @ ''</span>'',
       col_contact = ''<div class="jsonpanel contact" id="jsonpanel-from-'' @
         json_panel_id timestamp @ ''"></div>'',
       col_message = ''<div class="jsonpanel" id="jsonpanel-'' @
         json_panel_id timestamp @ ''"></div>'',
       col_log = (if truthy (map_of Message ''error'')
          then ''<span class="label label-danger">Error</span>'' else []) @
         to_string_opt (map_of Message ''log'') \<rparr>\<close>

definition quoted :: "jv option \<Rightarrow> string" where
  \<open>quoted v = ''"'' @ format_arg v @ ''", ''\<close>

text \<open>
  The contact preview: the four sub-fields of \<^verbatim>\<open>Message['from_']\<close> in fixed order. The
  first read raises when \<^verbatim>\<open>from_\<close> is \<^verbatim>\<open>undefined\<close> or \<^verbatim>\<open>null\<close>.
\<close>

definition contact_preview :: "jv option \<Rightarrow> js_error + string" where
  "contact_preview from = (case get_prop from ''name'' of
     Inl e \<Rightarrow> Inl e
   | Inr name \<Rightarrow> (case get_prop from ''email'' of
       Inl e \<Rightarrow> Inl e
     | Inr email \<Rightarrow> (case get_prop from ''organization'' of
         Inl e \<Rightarrow> Inl e
       | Inr organization \<Rightarrow> (case get_prop from ''geolocation'' of
           Inl e \<Rightarrow> Inl e
         | Inr geolocation \<Rightarrow>
             Inr (quoted name @ quoted email @ quoted organization @ quoted geolocation)))))"

definition preview_pair :: "string \<Rightarrow> jv option \<Rightarrow> string" where
  \<open>preview_pair k v = k @ '': "'' @ format_arg v @ ''", ''\<close>

text \<open>
  The message preview: \<^verbatim>\<open>subject\<close> and \<^verbatim>\<open>folder\<close> first, then every own property of
  the stripped entry in enumeration order. The loop asks the entry itself for
  \<^verbatim>\<open>hasOwnProperty\<close>; an entry is taken to have no field of that name.
\<close>

definition preview_keys :: "obj \<Rightarrow> string list" where
  "preview_keys Message = [''subject'', ''folder''] @ object_keys Message"

definition preview_msg :: "obj \<Rightarrow> string" where
  "preview_msg Message =
     concat (map (\<lambda>k. preview_pair k (map_of Message k)) (preview_keys Message))"

text \<open>Storing the mutated entry back under its key: the entry is shared by reference.\<close>

definition set_entry :: "string \<Rightarrow> obj \<Rightarrow> snapshot \<Rightarrow> snapshot" where
  "set_entry k e msg_log = map (\<lambda>kv. if fst kv = k then (k, e) else kv) msg_log"

text \<open>
  The body of the \<^verbatim>\<open>$.each\<close> callback for one timestamp: the row is added first, then
  the internal fields are deleted from the entry, then the two panels and previews are
  filled. An entry that is \<^verbatim>\<open>undefined\<close> raises at its first property read.
\<close>

definition render_one :: "string \<Rightarrow> snapshot \<times> page \<Rightarrow> (snapshot \<times> page) outcome" where
  "render_one timestamp st = (case st of (msg_log, p) \<Rightarrow>
     (case map_of msg_log timestamp of
        None \<Rightarrow> Threw TypeError (msg_log, p)
      | Some Message0 \<Rightarrow>
          let p1 = p\<lparr>table_rows := table_rows p @ [make_row timestamp Message0]\<rparr>;
              Message = strip_internal Message0;
              msg_log1 = set_entry timestamp Message msg_log;
              pid = json_panel_id timestamp;
              p2 = p1\<lparr>panel_calls := panel_calls p1 @
                     [ContactPanel pid (map_of Message ''from_'')]\<rparr>
          in (case contact_preview (map_of Message ''from_'') of
                Inl e \<Rightarrow> Threw e (msg_log1, p2)
              | Inr txt \<Rightarrow>
                  Done (msg_log1, p2\<lparr>panel_calls := panel_calls p2 @
                    [ContactText pid txt, MessagePanel pid Message,
                     MessageText pid (preview_msg Message)]\<rparr>))))"

fun render_each :: "string list \<Rightarrow> snapshot \<times> page \<Rightarrow> (snapshot \<times> page) outcome" where
  "render_each [] st = Done st"
| "render_each (timestamp # rest) st = (case render_one timestamp st of
     Done st' \<Rightarrow> render_each rest st'
   | Threw e st' \<Rightarrow> Threw e st')"

text \<open>
  \<^verbatim>\<open>append_log(msg_log)\<close>: the keys are sorted with the default (code unit) string
  order, rendered one by one, and the table is then ordered by column 0. The guard
  \<^verbatim>\<open>if(!msg_log) return\<close> never fires on an object.
\<close>

definition append_log :: "snapshot \<Rightarrow> page \<Rightarrow> (snapshot \<times> page) outcome" where
  "append_log msg_log p = (case render_each (sort (object_keys msg_log)) (msg_log, p) of
     Done (m, p') \<Rightarrow> Done (m, p'\<lparr>table_order := Col0Des\<rparr>)
   | Threw e st \<Rightarrow> Threw e st)"

subsection \<open>The JavaScript engine\<close>

text \<open>
  Two built-ins are taken as parameters. \<open>json_decode\<close> is \<^verbatim>\<open>JSON.parse\<close> on a payload
  that is meant to hold a snapshot, \<open>None\<close> when it raises a SyntaxError. \<open>array_sort\<close> is
  \<^verbatim>\<open>Array.prototype.sort\<close> with a comparison function: the language fixes its result only
  for a consistent comparison function, and leaves the order to the implementation
  otherwise.
\<close>

record engine =
  json_decode :: "string \<Rightarrow> snapshot option"
  array_sort :: "(string \<Rightarrow> string \<Rightarrow> int) \<Rightarrow> string list \<Rightarrow> string list"

text \<open>The empty string is not a JSON text: \<^verbatim>\<open>JSON.parse('')\<close> raises.\<close>

definition json_parse :: "engine \<Rightarrow> string \<Rightarrow> snapshot option" where
  "json_parse eng s = (if s = [] then None else json_decode eng s)"

text \<open>
  The comparison function of the first load, \<^verbatim>\<open>function(a, b) {return a>b;}\<close>: its
  boolean result reaches the sort as 1 or 0, never as a negative number.
\<close>

definition cmp_gt :: "string \<Rightarrow> string \<Rightarrow> int" where
  "cmp_gt a b = (if a > b then 1 else 0)"

text \<open>\<^verbatim>\<open>xs.slice(-10)\<close>.\<close>

definition slice_last10 :: "'a list \<Rightarrow> 'a list" where
  "slice_last10 xs = drop (length xs - 10) xs"

text \<open>
  \<^verbatim>\<open>ks.reduce((a, c) => ({ ...a, [c]: msg_log[c] }), {})\<close> of lines 93 and 104: a new
  object with the keys \<open>ks\<close> in that order and the entries of \<open>msg_log\<close> under them (the
  entries themselves are shared, see \<open>write_back\<close>). A computed key of an object literal
  defines an own property whatever the key is. Every key passed here is a key of
  \<open>msg_log\<close>.
\<close>

definition pick :: "snapshot \<Rightarrow> string list \<Rightarrow> snapshot" where
  "pick msg_log ks = List.map_filter (\<lambda>k. map_option (Pair k) (map_of msg_log k)) ks"

text \<open>The entries that \<^verbatim>\<open>append_log\<close> changed, seen through the object they came from.\<close>

definition write_back :: "snapshot \<Rightarrow> snapshot \<Rightarrow> snapshot" where
  "write_back msg_log part =
     map (\<lambda>kv. case map_of part (fst kv) of Some e \<Rightarrow> (fst kv, e) | None \<Rightarrow> kv) msg_log"

text \<open>\<^verbatim>\<open>$(xs).not(ys).get()\<close>: the elements of \<open>xs\<close> that are not in \<open>ys\<close>, in the order of \<open>xs\<close>.\<close>

definition jq_not :: "string list \<Rightarrow> string list \<Rightarrow> string list" where
  "jq_not xs ys = filter (\<lambda>k. k \<notin> set ys) xs"

text \<open>Line 102: the keys of the new snapshot that the previous payload did not have.\<close>

definition new_msg_key :: "snapshot \<Rightarrow> snapshot \<Rightarrow> string list" where
  "new_msg_key msg_log old_log = jq_not (object_keys msg_log) (object_keys old_log)"

subsection \<open>The object of the first load\<close>

text \<open>
  Line 88 builds its object by assignment, \<^verbatim>\<open>o[k] = msg_log[k]\<close>, and an assignment to
  the key \<^verbatim>\<open>__proto__\<close> does not add a property: it calls the setter of
  \<^verbatim>\<open>Object.prototype\<close>, which makes the assigned entry the prototype of \<^verbatim>\<open>o\<close>. Such an
  object has its own properties and, possibly, an entry as prototype.
\<close>

record linked =
  own_props :: snapshot
  proto :: "obj option"

definition assign_prop :: "snapshot \<Rightarrow> linked \<Rightarrow> string \<Rightarrow> linked" where
  "assign_prop msg_log ob k = (case map_of msg_log k of
     None \<Rightarrow> ob
   | Some e \<Rightarrow>
       if k = ''__proto__'' then ob\<lparr>proto := Some e\<rparr>
       else ob\<lparr>own_props := own_props ob @ [(k, e)]\<rparr>)"

text \<open>
  \<^verbatim>\<open>ks.reduce(function(o, k) { o[k] = msg_log[k]; return o; }, {})\<close>. Every key passed
  here is a key of \<open>msg_log\<close> as long as the sort returns the elements it was given.
\<close>

definition assign_reduce :: "snapshot \<Rightarrow> string list \<Rightarrow> linked" where
  "assign_reduce msg_log ks = foldl (assign_prop msg_log) \<lparr>own_props = [], proto = None\<rparr> ks"

text \<open>
  \<^verbatim>\<open>for(var key in msg_log)\<close> of line 7: the own keys, then the keys of the prototype
  that no own key hides. (\<^verbatim>\<open>Object.prototype\<close> itself has no enumerable property, so an
  object without a prototype of its own enumerates its own keys only.)
\<close>

definition for_in_keys :: "linked \<Rightarrow> string list" where
  "for_in_keys ob = object_keys (own_props ob) @
     (case proto ob of
        None \<Rightarrow> []
      | Some e \<Rightarrow> filter (\<lambda>k. k \<notin> set (object_keys (own_props ob))) (object_keys e))"

text \<open>
  The properties that the callback can read from a value: those of an object; a
  primitive or an array has none of the properties read here.
\<close>

definition props_of :: "jv \<Rightarrow> obj" where
  "props_of v = (case v of JObj c \<Rightarrow> c | _ \<Rightarrow> [])"

text \<open>The deletes of the callback, seen through the prototype whose field was rendered.\<close>

definition put_back :: "string \<Rightarrow> jv \<Rightarrow> snapshot \<Rightarrow> obj \<Rightarrow> obj" where
  "put_back k v m e = (case v of
     JObj c \<Rightarrow> (case map_of m k of
        Some c' \<Rightarrow> map (\<lambda>kv. if fst kv = k then (k, JObj c') else kv) e
      | None \<Rightarrow> e)
   | _ \<Rightarrow> e)"

text \<open>
  The callback for a key that the object inherits: \<^verbatim>\<open>Message\<close> is then a field of the
  prototype entry, of any kind. On \<^verbatim>\<open>null\<close> the first property read raises, before the
  row is added; any other value is rendered as the callback renders an entry.
\<close>

definition render_inherited :: "string \<Rightarrow> obj \<times> page \<Rightarrow> (obj \<times> page) outcome" where
  "render_inherited timestamp st = (case st of (e, p) \<Rightarrow>
     (case map_of e timestamp of
        None \<Rightarrow> Threw TypeError (e, p)
      | Some JNull \<Rightarrow> Threw TypeError (e, p)
      | Some v \<Rightarrow>
          (case render_one timestamp ([(timestamp, props_of v)], p) of
             Done (m, p') \<Rightarrow> Done (put_back timestamp v m e, p')
           | Threw err (m, p') \<Rightarrow> Threw err (put_back timestamp v m e, p'))))"

definition render_linked :: "string \<Rightarrow> linked \<times> page \<Rightarrow> (linked \<times> page) outcome" where
  "render_linked timestamp st = (case st of (ob, p) \<Rightarrow>
     if timestamp \<in> set (object_keys (own_props ob)) then
       (case render_one timestamp (own_props ob, p) of
          Done (m, p') \<Rightarrow> Done (ob\<lparr>own_props := m\<rparr>, p')
        | Threw err (m, p') \<Rightarrow> Threw err (ob\<lparr>own_props := m\<rparr>, p'))
     else
       (case proto ob of
          None \<Rightarrow> Threw TypeError (ob, p)
        | Some e \<Rightarrow>
            (case render_inherited timestamp (e, p) of
               Done (e', p') \<Rightarrow> Done (ob\<lparr>proto := Some e'\<rparr>, p')
             | Threw err (e', p') \<Rightarrow> Threw err (ob\<lparr>proto := Some e'\<rparr>, p'))))"

fun render_each_linked ::
  "string list \<Rightarrow> linked \<times> page \<Rightarrow> (linked \<times> page) outcome" where
  "render_each_linked [] st = Done st"
| "render_each_linked (timestamp # rest) st = (case render_linked timestamp st of
     Done st' \<Rightarrow> render_each_linked rest st'
   | Threw e st' \<Rightarrow> Threw e st')"

text \<open>
  \<^verbatim>\<open>append_log\<close> on such an object. On an object without a prototype of its own it is
  \<open>append_log\<close> on the own properties.
\<close>

definition append_log_linked :: "linked \<Rightarrow> page \<Rightarrow> (linked \<times> page) outcome" where
  "append_log_linked ob p = (case render_each_linked (sort (for_in_keys ob)) (ob, p) of
     Done (ob', p') \<Rightarrow> Done (ob', p'\<lparr>table_order := Col0Des\<rparr>)
   | Threw e st \<Rightarrow> Threw e st)"

text \<open>The entries changed by \<^verbatim>\<open>append_log\<close>, seen through the snapshot they came from.\<close>

definition write_back_linked :: "snapshot \<Rightarrow> linked \<Rightarrow> snapshot" where
  "write_back_linked msg_log ob = (case proto ob of
     None \<Rightarrow> write_back msg_log (own_props ob)
   | Some e \<Rightarrow> set_entry ''__proto__'' e (write_back msg_log (own_props ob)))"

subsection \<open>\<^verbatim>\<open>fetch_log\<close> of history_table.js\<close>

definition page_of :: "(snapshot \<times> page) outcome \<Rightarrow> page outcome" where
  "page_of r = (case r of Done (m, p) \<Rightarrow> Done p | Threw e (m, p) \<Rightarrow> Threw e p)"

text \<open>
  Lines 85 to 96, the first load: the last ten keys of the sorted key array are rendered,
  then the button is shown and given a click handler that holds the first snapshot and
  the keys already rendered.
\<close>

definition first_load :: "engine \<Rightarrow> snapshot \<Rightarrow> page \<Rightarrow> page outcome" where
  "first_load eng msg_log p =
     (let recent_keys = slice_last10 (array_sort eng cmp_gt (object_keys msg_log))
      in case append_log_linked (assign_reduce msg_log recent_keys) p of
           Threw e (ob, p1) \<Rightarrow> Threw e p1
         | Done (ob, p1) \<Rightarrow>
             Done (p1\<lparr>btn_visible := True,
                      btn_handlers := btn_handlers p1 @
                        [(write_back_linked msg_log ob, recent_keys)]\<rparr>))"

text \<open>Lines 98 to 105, every later change of the payload.\<close>

definition later_load :: "engine \<Rightarrow> snapshot \<Rightarrow> page \<Rightarrow> page outcome" where
  "later_load eng msg_log p =
     (case json_parse eng (if log_backup p = [] then ''{}'' else log_backup p) of
        None \<Rightarrow> Threw SyntaxError p
      | Some old_log \<Rightarrow>
          page_of (append_log (pick msg_log (new_msg_key msg_log old_log)) p))"

text \<open>Line 82, \<^verbatim>\<open>log_backup != res['imap_log']\<close>: inequality of the two strings.\<close>

definition has_changed :: "page \<Rightarrow> string \<Rightarrow> bool" where
  "has_changed p imap_log = (log_backup p \<noteq> imap_log)"

text \<open>Lines 82 to 111.\<close>

definition update_log :: "engine \<Rightarrow> string \<Rightarrow> page \<Rightarrow> page outcome" where
  "update_log eng imap_log p =
     (if has_changed p imap_log then
        (case json_parse eng imap_log of
           None \<Rightarrow> Threw SyntaxError p
         | Some msg_log \<Rightarrow>
             if log_backup p = [] then first_load eng msg_log p
             else later_load eng msg_log p)
      else Done p)"

text \<open>
  Strings are sequences of bytes, the UTF-8 encoding of the JavaScript string. The
  characters that \<^verbatim>\<open>$.trim\<close> removes, each as its bytes: tab to carriage return and
  space, U+00A0, U+1680, U+2000 to U+200A, U+2028, U+2029, U+202F, U+205F, U+3000 and
  U+FEFF.
\<close>

definition js_whitespace :: "string list" where
  "js_whitespace =
     map (\<lambda>c. [c]) [CHR 0x09, CHR 0x0A, CHR 0x0B, CHR 0x0C, CHR 0x0D, CHR 0x20] @
     [[CHR 0xC2, CHR 0xA0], [CHR 0xE1, CHR 0x9A, CHR 0x80]] @
     map (\<lambda>c. [CHR 0xE2, CHR 0x80, c])
       [CHR 0x80, CHR 0x81, CHR 0x82, CHR 0x83, CHR 0x84, CHR 0x85, CHR 0x86, CHR 0x87,
        CHR 0x88, CHR 0x89, CHR 0x8A, CHR 0xA8, CHR 0xA9, CHR 0xAF] @
     [[CHR 0xE2, CHR 0x81, CHR 0x9F], [CHR 0xE3, CHR 0x80, CHR 0x80],
      [CHR 0xEF, CHR 0xBB, CHR 0xBF]]"

text \<open>Removing from the front of \<open>s\<close>, as long as there is one, a sequence of \<open>ws\<close>.\<close>

function strip_front :: "string list \<Rightarrow> string \<Rightarrow> string" where
  "strip_front ws s =
     (case List.find (\<lambda>w. w \<noteq> [] \<and> take (length w) s = w) ws of
        None \<Rightarrow> s
      | Some w \<Rightarrow> strip_front ws (drop (length w) s))"
  by pat_completeness auto
termination
proof (relation "measure (\<lambda>(ws, s). length s)")
  show "wf (measure (\<lambda>(ws, s). length s))" by simp
next
  fix ws :: "string list" and s w :: string
  assume "List.find (\<lambda>w. w \<noteq> [] \<and> take (length w) s = w) ws = Some w"
  then have "w \<noteq> []" and "take (length w) s = w"
    by (auto simp: find_Some_iff)
  then have "s \<noteq> []" by auto
  with \<open>w \<noteq> []\<close> show "((ws, drop (length w) s), (ws, s)) \<in> measure (\<lambda>(ws, s). length s)"
    by simp
qed

definition js_trim :: "string \<Rightarrow> string" where
  "js_trim s = rev (strip_front (map rev js_whitespace) (rev (strip_front js_whitespace s)))"

text \<open>
  Lines 115 to 126. \<^verbatim>\<open>set_running\<close> and \<^verbatim>\<open>append_status_msg\<close> belong to the page and are
  not among the source files: the first is taken to set the running indicator, the
  second to write the status line.
\<close>

definition update_status :: "string \<Rightarrow> page \<Rightarrow> page" where
  "update_status user_status_msg p =
     (let p1 = p\<lparr>running := (js_trim user_status_msg \<noteq> [])\<rparr>;
          p2 = (if user_status_backup p1 \<noteq> user_status_msg
                then p1\<lparr>status_line := user_status_msg\<rparr> else p1)
      in p2\<lparr>user_status_backup := user_status_msg\<rparr>)"

text \<open>
  What one request can come back with: a transport failure, or a response with its
  \<^verbatim>\<open>status\<close>, \<^verbatim>\<open>imap_log\<close> and \<^verbatim>\<open>user_status_msg\<close>.
\<close>

datatype response = TransportFailure | Response bool string string

text \<open>
  One poll tick of the history view. The timer that started it is used up; a new one is
  set only on the last line of the success callback, which an uncaught exception and the
  \<^verbatim>\<open>fail\<close> handler never reach.
\<close>

definition fetch_log :: "engine \<Rightarrow> page \<Rightarrow> response \<Rightarrow> page" where
  "fetch_log eng p r = (let p0 = p\<lparr>scheduled := False\<rparr> in
     case r of
       TransportFailure \<Rightarrow> p0\<lparr>alerts := alerts p0 @ [''Please refresh the page!'']\<rparr>
     | Response status imap_log user_status_msg \<Rightarrow>
         if status then
           (case update_log eng imap_log p0 of
              Threw e p1 \<Rightarrow> p1\<lparr>uncaught := uncaught p1 @ [e]\<rparr>
            | Done p1 \<Rightarrow>
                (update_status user_status_msg (p1\<lparr>log_backup := imap_log\<rparr>))
                  \<lparr>scheduled := True\<rparr>)
         else p0\<lparr>notifications := notifications p0 @ [False], scheduled := True\<rparr>)"


subsection \<open>The load-more button\<close>

text \<open>
  One click handler (lines 92 to 94): the keys of the first snapshot that were not among
  the recent ones are rendered, and the button is hidden.
\<close>

definition load_more_handler ::
  "snapshot \<times> string list \<Rightarrow> page \<Rightarrow> ((snapshot \<times> string list) \<times> page) outcome" where
  "load_more_handler h p = (case h of (initial_msg_log, recent_keys) \<Rightarrow>
     (let rest_key = jq_not (object_keys initial_msg_log) recent_keys
      in case append_log (pick initial_msg_log rest_key) p of
           Threw e (m, p1) \<Rightarrow> Threw e ((write_back initial_msg_log m, recent_keys), p1)
         | Done (m, p1) \<Rightarrow>
             Done ((write_back initial_msg_log m, recent_keys), p1\<lparr>btn_visible := False\<rparr>)))"

text \<open>The handlers run in the order they were attached; an exception ends the dispatch.\<close>

fun run_handlers ::
  "(snapshot \<times> string list) list \<Rightarrow> (snapshot \<times> string list) list \<Rightarrow> page \<Rightarrow> page" where
  "run_handlers finished [] p = p\<lparr>btn_handlers := finished\<rparr>"
| "run_handlers finished (h # hs) p = (case load_more_handler h p of
     Done (h', p1) \<Rightarrow> run_handlers (finished @ [h']) hs p1
   | Threw e (h', p1) \<Rightarrow>
       p1\<lparr>btn_handlers := finished @ h' # hs, uncaught := uncaught p1 @ [e]\<rparr>)"

text \<open>A click of the user reaches the button only while it is shown.\<close>

definition click_load_more :: "page \<Rightarrow> page" where
  "click_load_more p = (if btn_visible p then run_handlers [] (btn_handlers p) p else p)"

subsection \<open>The table's display order\<close>

text \<open>
  The table component sorts its rows by the ordering in force at each draw, and keeps
  rows with equal cells in the order they were added. For any direction other than
  \<^verbatim>\<open>'asc'\<close> it reverses the comparison. The comparison of the cells is taken as the
  string order.
\<close>

definition sort_desc :: "(row \<Rightarrow> string) \<Rightarrow> row list \<Rightarrow> row list" where
  "sort_desc f rs = rev (sort_key f (rev rs))"

definition display :: "page \<Rightarrow> row list" where
  "display p = (case table_order p of
     Col1Asc \<Rightarrow> sort_key col_trigger (table_rows p)
   | Col0Des \<Rightarrow> sort_desc col_time (table_rows p))"

section \<open>The editor page\<close>

text \<open>
  The poll loop of login_imap.js keeps its own \<^verbatim>\<open>log_backup\<close> and writes the log as
  paragraphs into the console, newest first.
\<close>

record editor =
  e_log_backup :: string
  e_console :: "(string \<times> string) list"
  e_alerts :: "string list"
  e_notifications :: "bool list"
  e_scheduled :: bool

definition init_editor :: editor where
  "init_editor = \<lparr> e_log_backup = [], e_console = [], e_alerts = [],
     e_notifications = [], e_scheduled = True \<rparr>"

text \<open>\<^verbatim>\<open>log.replace(/\n/g , "<br>")\<close>.\<close>

definition nl_to_br :: "string \<Rightarrow> string" where
  "nl_to_br s = concat (map (\<lambda>c. if c = CHR 0x0A then ''<br>'' else [c]) s)"

text \<open>\<^verbatim>\<open>append_log\<close> of login_imap.js: nothing for an empty log, else one paragraph on top.\<close>

definition editor_append_log :: "string \<Rightarrow> bool \<Rightarrow> editor \<Rightarrow> editor" where
  "editor_append_log log is_error e =
     (if log = [] then e
      else e\<lparr>e_console := (''<p>'' @ nl_to_br log @ ''</p>'',
                 if is_error then ''error'' else ''info'') # e_console e\<rparr>)"

text \<open>
  \<^verbatim>\<open>fetch_log\<close> of login_imap.js: the request has a success callback only, and the next
  tick is set by the function itself, after the request is sent.
\<close>

definition editor_fetch_log :: "editor \<Rightarrow> response \<Rightarrow> editor" where
  "editor_fetch_log e r = (let e0 = e\<lparr>e_scheduled := True\<rparr> in
     case r of
       TransportFailure \<Rightarrow> e0
     | Response status imap_log user_status_msg \<Rightarrow>
         if status then
           (if e_log_backup e0 \<noteq> imap_log
            then editor_append_log imap_log False (e0\<lparr>e_console := []\<rparr>)
            else e0)\<lparr>e_log_backup := imap_log\<rparr>
         else e0\<lparr>e_notifications := e_notifications e0 @ [False]\<rparr>)"

section \<open>Observers and a concrete engine\<close>

definition outcome_state :: "'a outcome \<Rightarrow> 'a" where
  "outcome_state r = (case r of Done x \<Rightarrow> x | Threw e x \<Rightarrow> x)"


text \<open>The timestamp keys of the rows of the table, in the order they were added.\<close>

definition rendered :: "page \<Rightarrow> string list" where
  "rendered p = map row_ts (table_rows p)"


text \<open>
  An insertion sort that, like the sorts of current browsers, moves an element to the
  left only past elements it compares negative with. It sorts correctly with every
  consistent comparison function.
\<close>

fun insert_left :: "(string \<Rightarrow> string \<Rightarrow> int) \<Rightarrow> string \<Rightarrow> string list \<Rightarrow> string list" where
  "insert_left cmp x [] = [x]"
| "insert_left cmp x (y # ys) =
     (if cmp x y < 0 then y # insert_left cmp x ys else x # y # ys)"

definition insertion_sort :: "(string \<Rightarrow> string \<Rightarrow> int) \<Rightarrow> string list \<Rightarrow> string list" where
  "insertion_sort cmp xs = rev (foldl (\<lambda>acc x. insert_left cmp x acc) [] xs)"

text \<open>An engine whose decoder is a table of payloads and their snapshots.\<close>

definition table_engine :: "(string \<times> snapshot) list \<Rightarrow> engine" where
  "table_engine tab = \<lparr> json_decode = map_of tab, array_sort = insertion_sort \<rparr>"

section \<open>Notions used in the statements and proofs\<close>

text \<open>The fields that rendering never writes.\<close>

definition untouched :: "page \<Rightarrow> page \<Rightarrow> bool" where
  "untouched p p' = (log_backup p' = log_backup p \<and> user_status_backup p' = user_status_backup p
     \<and> running p' = running p \<and> status_line p' = status_line p \<and> alerts p' = alerts p
     \<and> notifications p' = notifications p \<and> uncaught p' = uncaught p
     \<and> scheduled p' = scheduled p)"

text \<open>The table of \<open>p'\<close> is the table of \<open>p\<close> with rows for the keys \<open>ks\<close> added at its end.\<close>

definition added :: "page \<Rightarrow> page \<Rightarrow> string list \<Rightarrow> bool" where
  "added p p' ks = (\<exists>rows. table_rows p' = table_rows p @ rows \<and> map row_ts rows = ks)"

text \<open>An object without a prototype of its own, and results on such objects.\<close>

definition plain :: "snapshot \<Rightarrow> linked" where
  "plain m = \<lparr>own_props = m, proto = None\<rparr>"

definition lift_plain :: "(snapshot \<times> page) outcome \<Rightarrow> (linked \<times> page) outcome" where
  "lift_plain r = (case r of
     Done (m, p) \<Rightarrow> Done (plain m, p)
   | Threw e (m, p) \<Rightarrow> Threw e (plain m, p))"









text \<open>Example payloads, with the snapshots they decode to.\<close>

definition entry_ann :: obj where
  "entry_ann = [(''log'', JStr ''ran''), (''from_'', JObj [(''name'', JStr ''Ann'')])]"

definition payload_ab :: string where
  \<open>payload_ab = ''{"A":{"log":"ran","from_":{"name":"Ann"}},"B":{"log":"ran","from_":{"name":"Ann"}}}''\<close>

definition payload_abc :: string where
  \<open>payload_abc = ''{"A":{"log":"ran","from_":{"name":"Ann"}},"B":{"log":"ran","from_":{"name":"Ann"}},"C":{"log":"ran","from_":{"name":"Ann"}}}''\<close>

definition snapshot_ab :: snapshot where
  "snapshot_ab = [(''A'', entry_ann), (''B'', entry_ann)]"

definition snapshot_abc :: snapshot where
  "snapshot_abc = [(''A'', entry_ann), (''B'', entry_ann), (''C'', entry_ann)]"

definition demo_engine :: engine where
  "demo_engine = table_engine [(payload_ab, snapshot_ab), (payload_abc, snapshot_abc)]"

definition entry_full :: obj where
  "entry_full = [(''trigger'', JStr ''arrival''), (''error'', JBool False),
     (''log'', JStr ''ran''), (''timestamp'', JStr ''A''), (''type'', JStr ''info''),
     (''subject'', JStr ''Hi''), (''from_'', JObj [(''name'', JStr ''Ann'')])]"


text \<open>
  A first payload of eleven entries that lists its greatest key first, and snapshots
  with the timestamps of two days and of one day.
\<close>

definition payload_k_first :: string where
  \<open>payload_k_first = ''{"K":{"from_":{}},"A":{"from_":{}},"B":{"from_":{}},"C":{"from_":{}},"D":{"from_":{}},"E":{"from_":{}},"F":{"from_":{}},"G":{"from_":{}},"H":{"from_":{}},"I":{"from_":{}},"J":{"from_":{}}}''\<close>

definition snapshot_k_first :: snapshot where
  "snapshot_k_first = map (\<lambda>k. (k, [(''from_'', JObj [])]))
     [''K'', ''A'', ''B'', ''C'', ''D'', ''E'', ''F'', ''G'', ''H'', ''I'', ''J'']"

definition engine_k_first :: engine where
  "engine_k_first = table_engine [(payload_k_first, snapshot_k_first)]"

definition snapshot_dates :: snapshot where
  "snapshot_dates =
     [(''1/1/2024, 1:00:00 PM'', entry_ann), (''1/2/2024, 9:00:00 AM'', entry_ann),
      (''12/31/2023, 11:59:59 PM'', entry_ann)]"

definition snapshot_same_day :: snapshot where
  "snapshot_same_day =
     [(''1/1/2024, 1:00:00 PM'', entry_ann), (''1/1/2024, 2:00:00 PM'', entry_ann)]"

text \<open>
  A growing log of eleven and then twelve entries; a first snapshot whose least key
  has an entry without \<^verbatim>\<open>from_\<close>; and a snapshot with the key \<^verbatim>\<open>__proto__\<close>, followed by one
  that adds the key \<^verbatim>\<open>X\<close>.
\<close>

definition entry_min :: obj where
  "entry_min = [(''from_'', JObj [])]"

definition snapshot_a_to_k :: snapshot where
  "snapshot_a_to_k = map (\<lambda>k. (k, entry_min))
     [''A'', ''B'', ''C'', ''D'', ''E'', ''F'', ''G'', ''H'', ''I'', ''J'', ''K'']"

definition payload_a_to_k :: string where
  \<open>payload_a_to_k = ''{"A":{"from_":{}},"B":{"from_":{}},"C":{"from_":{}},"D":{"from_":{}},"E":{"from_":{}},"F":{"from_":{}},"G":{"from_":{}},"H":{"from_":{}},"I":{"from_":{}},"J":{"from_":{}},"K":{"from_":{}}}''\<close>

definition snapshot_a_to_l :: snapshot where
  "snapshot_a_to_l = snapshot_a_to_k @ [(''L'', entry_min)]"

definition payload_a_to_l :: string where
  \<open>payload_a_to_l = ''{"A":{"from_":{}},"B":{"from_":{}},"C":{"from_":{}},"D":{"from_":{}},"E":{"from_":{}},"F":{"from_":{}},"G":{"from_":{}},"H":{"from_":{}},"I":{"from_":{}},"J":{"from_":{}},"K":{"from_":{}},"L":{"from_":{}}}''\<close>

definition engine_growing :: engine where
  "engine_growing = table_engine
     [(payload_a_to_k, snapshot_a_to_k), (payload_a_to_l, snapshot_a_to_l)]"









section \<open>Helper lemmas\<close>

lemma set_object_keys: "set (object_keys ob) = fst ` set ob"
  by (simp add: object_keys_def)

lemma distinct_object_keys: "distinct (object_keys ob)"
  by (simp add: object_keys_def)

lemma untouched_refl: "untouched p p"
  by (simp add: untouched_def)

lemma untouched_trans: "untouched p q \<Longrightarrow> untouched q r \<Longrightarrow> untouched p r"
  by (simp add: untouched_def)

lemma added_refl: "added p p []"
  by (simp add: added_def)

lemma added_trans: "added p q ks \<Longrightarrow> added q r ks' \<Longrightarrow> added p r (ks @ ks')"
  by (auto simp: added_def)


lemma added_same_rows: "table_rows p' = table_rows p \<Longrightarrow> added p p' ks \<longleftrightarrow> ks = []"
  by (auto simp: added_def)

lemma map_fst_set_entry: "map fst (set_entry k e m) = map fst m"
  by (induction m) (auto simp: set_entry_def)

lemma map_of_Some_key: "map_of m t = Some x \<Longrightarrow> t \<in> fst ` set m"
  by (metis map_of_eq_None_iff option.distinct(1))

lemma map_of_None_key: "map_of m t = None \<Longrightarrow> t \<notin> fst ` set m"
  by (simp add: map_of_eq_None_iff)

lemma row_ts_make_row: "row_ts (make_row t M) = t"
  by (simp add: make_row_def)

lemma render_one_facts:
  assumes "outcome_state (render_one t (m, p)) = (m', p')"
  shows "untouched p p'" and "btn_visible p' = btn_visible p"
    and "btn_handlers p' = btn_handlers p" and "table_order p' = table_order p"
    and "map fst m' = map fst m"
    and "added p p' (if t \<in> fst ` set m then [t] else [])"
proof -
  show "untouched p p'" "btn_visible p' = btn_visible p"
    "btn_handlers p' = btn_handlers p" "table_order p' = table_order p"
    "map fst m' = map fst m"
    using assms
    by (auto simp: render_one_def outcome_state_def untouched_def Let_def
        map_fst_set_entry split: option.splits sum.splits)
  show "added p p' (if t \<in> fst ` set m then [t] else [])"
  proof (cases "map_of m t")
    case None
    then show ?thesis
      using assms map_of_None_key [OF None]
      by (simp add: render_one_def outcome_state_def added_def)
  next
    case (Some M)
    then show ?thesis
      using assms map_of_Some_key [OF Some]
      by (auto simp: render_one_def outcome_state_def Let_def added_def row_ts_make_row
          split: sum.splits)
  qed
qed

lemma render_one_Done_key:
  "render_one t (m, p) = Done st \<Longrightarrow> t \<in> fst ` set m"
  by (cases "map_of m t") (auto simp: render_one_def dest: map_of_Some_key)

lemma render_each_facts:
  assumes "outcome_state (render_each ks (m, p)) = (m', p')"
  shows "untouched p p' \<and> btn_visible p' = btn_visible p
    \<and> btn_handlers p' = btn_handlers p \<and> table_order p' = table_order p
    \<and> map fst m' = map fst m
    \<and> (\<exists>n. added p p' (take n ks))"
  using assms
proof (induction ks arbitrary: m p)
  case Nil
  then show ?case by (simp add: outcome_state_def untouched_refl added_refl)
next
  case (Cons t ks)
  obtain m1 p1 where s1: "outcome_state (render_one t (m, p)) = (m1, p1)"
    by (cases "outcome_state (render_one t (m, p))") auto
  note f1 = render_one_facts [OF s1]
  show ?case
  proof (cases "render_one t (m, p)")
    case (Done st)
    with s1 have st: "st = (m1, p1)" by (simp add: outcome_state_def)
    have "outcome_state (render_each ks (m1, p1)) = (m', p')"
      using Cons.prems Done st by simp
    from Cons.IH [OF this] obtain n where
      ih: "untouched p1 p'" "btn_visible p' = btn_visible p1"
        "btn_handlers p' = btn_handlers p1" "table_order p' = table_order p1"
        "map fst m' = map fst m1" "added p1 p' (take n ks)"
      by blast
    have "t \<in> fst ` set m" using Done by (rule render_one_Done_key)
    then have "added p p1 [t]" using f1(6) by simp
    then have "added p p' (take (Suc n) (t # ks))"
      using added_trans [OF _ ih(6)] by fastforce
    then show ?thesis
      using ih f1 untouched_trans by metis
  next
    case (Threw e st)
    with s1 Cons.prems have "m' = m1" "p' = p1" by (simp_all add: outcome_state_def)
    moreover have "\<exists>n. added p p1 (take n (t # ks))"
    proof (cases "t \<in> fst ` set m")
      case True
      then have "added p p1 (take 1 (t # ks))" using f1(6) by simp
      then show ?thesis by blast
    next
      case False
      then have "added p p1 (take 0 (t # ks))" using f1(6) by simp
      then show ?thesis by blast
    qed
    ultimately show ?thesis using f1 by simp
  qed
qed


lemma append_log_facts:
  assumes "outcome_state (append_log msg_log p) = (m', p')"
  shows "untouched p p' \<and> btn_visible p' = btn_visible p
    \<and> btn_handlers p' = btn_handlers p
    \<and> (table_order p' = table_order p \<or> table_order p' = Col0Des)
    \<and> map fst m' = map fst msg_log
    \<and> (\<exists>n. added p p' (take n (sort (object_keys msg_log))))"
proof (cases "render_each (sort (object_keys msg_log)) (msg_log, p)")
  case (Done st)
  obtain m1 p1 where st: "st = (m1, p1)" by (cases st)
  have o: "outcome_state (render_each (sort (object_keys msg_log)) (msg_log, p)) = (m1, p1)"
    using Done st by (simp add: outcome_state_def)
  have "m' = m1" "p' = p1\<lparr>table_order := Col0Des\<rparr>"
    using assms Done st by (simp_all add: append_log_def outcome_state_def)
  then show ?thesis
    using render_each_facts [OF o] by (auto simp: untouched_def added_def)
next
  case (Threw e st)
  have "outcome_state (render_each (sort (object_keys msg_log)) (msg_log, p)) = (m', p')"
    using assms Threw by (simp add: append_log_def outcome_state_def)
  from render_each_facts [OF this] show ?thesis by auto
qed


lemma map_fst_pick: "map fst (pick m ks) = filter (\<lambda>k. k \<in> fst ` set m) ks"
proof (induction ks)
  case Nil
  then show ?case by (simp add: pick_def List.map_filter_simps)
next
  case (Cons k ks)
  show ?case
  proof (cases "map_of m k")
    case None
    then show ?thesis
      using Cons map_of_None_key [OF None] by (simp add: pick_def List.map_filter_simps)
  next
    case (Some e)
    then show ?thesis
      using Cons map_of_Some_key [OF Some] by (simp add: pick_def List.map_filter_simps)
  qed
qed

lemma set_keys_pick: "set (object_keys (pick m ks)) = set ks \<inter> fst ` set m"
  by (auto simp: object_keys_def map_fst_pick)

lemma batch_keys:
  "distinct (take n (sort (object_keys ob)))"
  "set (take n (sort (object_keys ob))) \<subseteq> fst ` set ob"
proof -
  show "distinct (take n (sort (object_keys ob)))"
    by (simp add: distinct_object_keys)
  have "set (take n (sort (object_keys ob))) \<subseteq> set (sort (object_keys ob))"
    by (rule set_take_subset)
  then show "set (take n (sort (object_keys ob))) \<subseteq> fst ` set ob"
    by (simp add: set_object_keys)
qed


lemma foldl_assign_prop_plain:
  assumes "map_of m ''__proto__'' = None"
  shows "foldl (assign_prop m) \<lparr>own_props = acc, proto = None\<rparr> ks =
    \<lparr>own_props = acc @ pick m ks, proto = None\<rparr>"
proof (induction ks arbitrary: acc)
  case Nil
  then show ?case by (simp add: pick_def List.map_filter_simps)
next
  case (Cons k ks)
  show ?case
  proof (cases "map_of m k")
    case None
    then show ?thesis
      using Cons [of acc] by (simp add: assign_prop_def pick_def List.map_filter_simps)
  next
    case (Some e)
    then have "k \<noteq> ''__proto__''" using assms by auto
    then show ?thesis
      using Some Cons [of "acc @ [(k, e)]"]
      by (simp add: assign_prop_def pick_def List.map_filter_simps)
  qed
qed

lemma assign_reduce_plain:
  "map_of m ''__proto__'' = None \<Longrightarrow> assign_reduce m ks = plain (pick m ks)"
  using foldl_assign_prop_plain [of m "[]" ks] by (simp add: assign_reduce_def plain_def)

lemma for_in_keys_plain: "for_in_keys (plain m) = object_keys m"
  by (simp add: for_in_keys_def plain_def)

lemma render_linked_plain:
  assumes "t \<in> fst ` set m"
  shows "render_linked t (plain m, p) = lift_plain (render_one t (m, p))"
proof -
  have "t \<in> set (object_keys (own_props (plain m)))"
    using assms by (simp add: plain_def set_object_keys)
  then show ?thesis
    by (cases "render_one t (m, p)")
      (auto simp: render_linked_def lift_plain_def plain_def)
qed

lemma render_each_linked_plain:
  assumes "set ks \<subseteq> fst ` set m"
  shows "render_each_linked ks (plain m, p) = lift_plain (render_each ks (m, p))"
  using assms
proof (induction ks arbitrary: m p)
  case Nil
  then show ?case by (simp add: lift_plain_def)
next
  case (Cons t ks)
  then have t: "t \<in> fst ` set m" by simp
  show ?case
  proof (cases "render_one t (m, p)")
    case (Done st)
    obtain m1 p1 where st: "st = (m1, p1)" by (cases st)
    have "outcome_state (render_one t (m, p)) = (m1, p1)"
      using Done st by (simp add: outcome_state_def)
    then have "map fst m1 = map fst m" by (rule render_one_facts)
    then have "fst ` set m1 = fst ` set m" by (metis set_map)
    then have "set ks \<subseteq> fst ` set m1" using Cons.prems by simp
    from Cons.IH [OF this] show ?thesis
      using Done st render_linked_plain [OF t, of p] by (simp add: lift_plain_def)
  next
    case (Threw e st)
    obtain m1 p1 where st: "st = (m1, p1)" by (cases st)
    show ?thesis
      using Threw st render_linked_plain [OF t, of p] by (simp add: lift_plain_def)
  qed
qed

lemma append_log_linked_plain:
  "append_log_linked (plain m) p = lift_plain (append_log m p)"
proof -
  have "set (sort (object_keys m)) \<subseteq> fst ` set m" by (simp add: set_object_keys)
  from render_each_linked_plain [OF this, of p] show ?thesis
    by (cases "render_each (sort (object_keys m)) (m, p)")
      (auto simp: append_log_linked_def append_log_def for_in_keys_plain lift_plain_def)
qed

lemma first_load_plain:
  assumes "map_of S ''__proto__'' = None"
  shows "first_load eng S p =
    (case append_log (pick S (slice_last10 (array_sort eng cmp_gt (object_keys S)))) p of
       Threw e (m, p1) \<Rightarrow> Threw e p1
     | Done (m, p1) \<Rightarrow>
         Done (p1\<lparr>btn_visible := True,
                  btn_handlers := btn_handlers p1 @
                    [(write_back S m, slice_last10 (array_sort eng cmp_gt (object_keys S)))]\<rparr>))"
proof -
  let ?recent = "slice_last10 (array_sort eng cmp_gt (object_keys S))"
  have "append_log_linked (assign_reduce S ?recent) p = lift_plain (append_log (pick S ?recent) p)"
    using assms by (simp add: assign_reduce_plain append_log_linked_plain)
  then show ?thesis
    by (cases "append_log (pick S ?recent) p")
      (auto simp: first_load_def Let_def lift_plain_def write_back_linked_def plain_def)
qed

lemma render_inherited_untouched:
  assumes "outcome_state (render_inherited t (e, p)) = (e', p')"
  shows "untouched p p'"
proof (cases "map_of e t")
  case None
  then show ?thesis
    using assms by (simp add: render_inherited_def outcome_state_def untouched_refl)
next
  case (Some v)
  show ?thesis
  proof (cases "v = JNull")
    case True
    then show ?thesis
      using assms Some by (simp add: render_inherited_def outcome_state_def untouched_refl)
  next
    case False
    obtain m1 p1 where o: "outcome_state (render_one t ([(t, props_of v)], p)) = (m1, p1)"
      by (cases "outcome_state (render_one t ([(t, props_of v)], p))") auto
    have "p' = p1"
      using assms Some False o
      by (cases v; cases "render_one t ([(t, props_of v)], p)")
        (auto simp: render_inherited_def outcome_state_def)
    with render_one_facts(1) [OF o] show ?thesis by simp
  qed
qed

lemma render_linked_untouched:
  assumes "outcome_state (render_linked t (ob, p)) = (ob', p')"
  shows "untouched p p'"
proof (cases "t \<in> set (object_keys (own_props ob))")
  case True
  obtain m1 p1 where o: "outcome_state (render_one t (own_props ob, p)) = (m1, p1)"
    by (cases "outcome_state (render_one t (own_props ob, p))") auto
  have "p' = p1"
    using assms True o
    by (cases "render_one t (own_props ob, p)") (auto simp: render_linked_def outcome_state_def)
  with render_one_facts(1) [OF o] show ?thesis by simp
next
  case False
  show ?thesis
  proof (cases "proto ob")
    case None
    then show ?thesis
      using assms False by (simp add: render_linked_def outcome_state_def untouched_refl)
  next
    case (Some e)
    obtain e1 p1 where o: "outcome_state (render_inherited t (e, p)) = (e1, p1)"
      by (cases "outcome_state (render_inherited t (e, p))") auto
    have "p' = p1"
      using assms False Some o
      by (cases "render_inherited t (e, p)") (auto simp: render_linked_def outcome_state_def)
    with render_inherited_untouched [OF o] show ?thesis by simp
  qed
qed

lemma render_each_linked_untouched:
  assumes "outcome_state (render_each_linked ks (ob, p)) = (ob', p')"
  shows "untouched p p'"
  using assms
proof (induction ks arbitrary: ob p)
  case Nil
  then show ?case by (simp add: outcome_state_def untouched_refl)
next
  case (Cons t ks)
  obtain ob1 p1 where o: "outcome_state (render_linked t (ob, p)) = (ob1, p1)"
    by (cases "outcome_state (render_linked t (ob, p))") auto
  note u1 = render_linked_untouched [OF o]
  show ?case
  proof (cases "render_linked t (ob, p)")
    case (Done st)
    with o have "st = (ob1, p1)" by (simp add: outcome_state_def)
    then have "outcome_state (render_each_linked ks (ob1, p1)) = (ob', p')"
      using Cons.prems Done by simp
    from untouched_trans [OF u1 Cons.IH [OF this]] show ?thesis .
  next
    case (Threw e st)
    with o Cons.prems have "p' = p1" by (simp add: outcome_state_def)
    with u1 show ?thesis by simp
  qed
qed

lemma append_log_linked_untouched:
  assumes "outcome_state (append_log_linked ob p) = (ob', p')"
  shows "untouched p p'"
proof (cases "render_each_linked (sort (for_in_keys ob)) (ob, p)")
  case (Done st)
  obtain ob1 p1 where st: "st = (ob1, p1)" by (cases st)
  have "outcome_state (render_each_linked (sort (for_in_keys ob)) (ob, p)) = (ob1, p1)"
    using Done st by (simp add: outcome_state_def)
  from render_each_linked_untouched [OF this] have "untouched p p1" .
  moreover have "p' = p1\<lparr>table_order := Col0Des\<rparr>"
    using assms Done st by (simp add: append_log_linked_def outcome_state_def)
  ultimately show ?thesis by (simp add: untouched_def)
next
  case (Threw e st)
  then have "outcome_state (render_each_linked (sort (for_in_keys ob)) (ob, p)) = (ob', p')"
    using assms by (simp add: append_log_linked_def outcome_state_def)
  then show ?thesis by (rule render_each_linked_untouched)
qed

lemma first_load_untouched: "untouched p (outcome_state (first_load eng S p))"
proof -
  let ?r = "append_log_linked
    (assign_reduce S (slice_last10 (array_sort eng cmp_gt (object_keys S)))) p"
  obtain ob1 p1 where o: "outcome_state ?r = (ob1, p1)"
    by (cases "outcome_state ?r") auto
  from append_log_linked_untouched [OF o] have "untouched p p1" .
  moreover have "untouched p1 (outcome_state (first_load eng S p))"
    using o by (cases ?r) (auto simp: first_load_def Let_def outcome_state_def untouched_def)
  ultimately show ?thesis by (rule untouched_trans)
qed

lemma first_load_facts:
  assumes "outcome_state (first_load eng S p) = p'" and "map_of S ''__proto__'' = None"
  shows "untouched p p' \<and>
    (\<exists>new. added p p' new \<and> distinct new \<and> set new \<subseteq> fst ` set S \<and> length new \<le> 10) \<and>
    (table_order p' = table_order p \<or> table_order p' = Col0Des)"
proof -
  let ?recent = "slice_last10 (array_sort eng cmp_gt (object_keys S))"
  obtain m1 p1 where o: "outcome_state (append_log (pick S ?recent) p) = (m1, p1)"
    by (cases "outcome_state (append_log (pick S ?recent) p)") auto
  from append_log_facts [OF o] obtain n where
    f: "untouched p p1" "table_order p1 = table_order p \<or> table_order p1 = Col0Des"
       "added p p1 (take n (sort (object_keys (pick S ?recent))))"
    by blast
  have p': "untouched p1 p' \<and> table_rows p' = table_rows p1 \<and> table_order p' = table_order p1"
    using assms(1) o unfolding first_load_plain [OF assms(2)]
    by (auto simp: outcome_state_def untouched_def split: outcome.splits)
  let ?new = "take n (sort (object_keys (pick S ?recent)))"
  have a: "added p p' ?new" using f(3) p' by (simp add: added_def)
  have "set ?new \<subseteq> fst ` set (pick S ?recent)" by (rule batch_keys)
  also have "\<dots> = set (object_keys (pick S ?recent))" by (simp add: set_object_keys)
  finally have sub: "set ?new \<subseteq> set ?recent \<inter> fst ` set S" by (simp add: set_keys_pick)
  have "length (object_keys (pick S ?recent)) \<le> length (map fst (pick S ?recent))"
    unfolding object_keys_def by (rule length_remdups_leq)
  also have "\<dots> \<le> length ?recent" by (simp add: map_fst_pick)
  also have "\<dots> \<le> 10" by (simp add: slice_last10_def)
  finally have "length ?new \<le> 10" by simp
  then have w: "added p p' ?new \<and> distinct ?new \<and> set ?new \<subseteq> fst ` set S \<and> length ?new \<le> 10"
    using a sub batch_keys(1) [of n "pick S ?recent"] by simp
  have "\<exists>new. added p p' new \<and> distinct new \<and> set new \<subseteq> fst ` set S \<and> length new \<le> 10"
    by (rule exI, rule w)
  moreover have "untouched p p'" using f(1) p' untouched_trans by blast
  moreover have "table_order p' = table_order p \<or> table_order p' = Col0Des" using f(2) p' by auto
  ultimately show ?thesis by blast
qed


lemma later_load_facts:
  assumes "outcome_state (later_load eng S p) = p'"
  shows "untouched p p' \<and>
    (\<exists>new. added p p' new \<and> distinct new \<and> set new \<subseteq> fst ` set S
           \<and> (new \<noteq> [] \<longrightarrow> (\<exists>old.
                 json_parse eng (if log_backup p = [] then ''{}'' else log_backup p) = Some old
                \<and> set new \<inter> fst ` set old = {}))) \<and>
    (table_order p' = table_order p \<or> table_order p' = Col0Des) \<and>
    btn_visible p' = btn_visible p \<and> btn_handlers p' = btn_handlers p"
proof (cases "json_parse eng (if log_backup p = [] then ''{}'' else log_backup p)")
  case None
  then have "p' = p" using assms by (simp add: later_load_def outcome_state_def)
  then have "added p p' [] \<and> distinct ([]::string list)" by (simp add: added_refl)
  then show ?thesis
    using \<open>p' = p\<close> untouched_refl [of p] by auto
next
  case (Some old)
  let ?ks = "new_msg_key S old"
  obtain m1 p1 where o: "outcome_state (append_log (pick S ?ks) p) = (m1, p1)"
    by (cases "outcome_state (append_log (pick S ?ks) p)") auto
  have p': "p' = p1"
    using assms Some o
    by (auto simp: later_load_def page_of_def outcome_state_def split: outcome.splits)
  from append_log_facts [OF o] obtain n where
    f: "untouched p p1" "table_order p1 = table_order p \<or> table_order p1 = Col0Des"
       "btn_visible p1 = btn_visible p" "btn_handlers p1 = btn_handlers p"
       "added p p1 (take n (sort (object_keys (pick S ?ks))))"
    by blast
  let ?new = "take n (sort (object_keys (pick S ?ks)))"
  have sub: "set ?new \<subseteq> set ?ks \<inter> fst ` set S"
    using batch_keys(2) [of n "pick S ?ks"] set_keys_pick [of S ?ks]
    by (simp add: set_object_keys)
  have ks: "set ?ks = fst ` set S - fst ` set old"
    by (auto simp: new_msg_key_def jq_not_def set_object_keys)
  have w: "added p p' ?new \<and> distinct ?new \<and> set ?new \<subseteq> fst ` set S
    \<and> (?new \<noteq> [] \<longrightarrow> (\<exists>old.
          json_parse eng (if log_backup p = [] then ''{}'' else log_backup p) = Some old
          \<and> set ?new \<inter> fst ` set old = {}))"
    using f(5) p' sub ks Some batch_keys(1) [of n "pick S ?ks"] by auto
  have "\<exists>new. added p p' new \<and> distinct new \<and> set new \<subseteq> fst ` set S
    \<and> (new \<noteq> [] \<longrightarrow> (\<exists>old.
          json_parse eng (if log_backup p = [] then ''{}'' else log_backup p) = Some old
          \<and> set new \<inter> fst ` set old = {}))"
    by (rule exI, rule w)
  then show ?thesis
    using f(1-4) p' by simp
qed

lemma map_of_delete_prop:
  "map_of (delete_prop k ob) k' = (if k' = k then None else map_of ob k')"
  by (induction ob) (auto simp: delete_prop_def)

lemma keys_delete_prop: "set (object_keys (delete_prop k ob)) = set (object_keys ob) - {k}"
  by (auto simp: delete_prop_def set_object_keys)

lemma keys_strip_internal:
  "set (object_keys (strip_internal M)) = set (object_keys M) - set internal_fields"
  by (auto simp: strip_internal_def keys_delete_prop internal_fields_def)

lemma map_of_strip_internal:
  "map_of (strip_internal M) k = (if k \<in> set internal_fields then None else map_of M k)"
  by (simp add: strip_internal_def map_of_delete_prop internal_fields_def)

lemma map_of_set_entry_same:
  "map_of m t = Some M \<Longrightarrow> map_of (set_entry t e m) t = Some e"
  by (induction m) (auto simp: set_entry_def)

lemma map_of_set_entry_other:
  "k \<noteq> t \<Longrightarrow> map_of (set_entry t e m) k = map_of m k"
  by (induction m) (auto simp: set_entry_def)










lemma map_of_pick:
  "map_of (pick m ks) k = (if k \<in> set ks then map_of m k else None)"
proof (induction ks)
  case Nil
  then show ?case by (simp add: pick_def List.map_filter_simps)
next
  case (Cons a ks)
  then show ?case
    by (cases "map_of m a") (auto simp: pick_def List.map_filter_simps)
qed



lemma sorted_keys_pick:
  "set (sort (object_keys (pick m ks))) = set ks \<inter> fst ` set m"
  "distinct (sort (object_keys (pick m ks)))"
  by (simp_all add: set_keys_pick distinct_object_keys)

lemma fetch_log_True:
  "fetch_log eng p (Response True s u) =
     (case update_log eng s (p\<lparr>scheduled := False\<rparr>) of
        Threw e p1 \<Rightarrow> p1\<lparr>uncaught := uncaught p1 @ [e]\<rparr>
      | Done p1 \<Rightarrow> (update_status u (p1\<lparr>log_backup := s\<rparr>))\<lparr>scheduled := True\<rparr>)"
  by (simp add: fetch_log_def)

lemma update_status_fields:
  "table_rows (update_status u p) = table_rows p"
  "table_order (update_status u p) = table_order p"
  "log_backup (update_status u p) = log_backup p"
  "btn_visible (update_status u p) = btn_visible p"
  "btn_handlers (update_status u p) = btn_handlers p"
  "panel_calls (update_status u p) = panel_calls p"
  "scheduled (update_status u p) = scheduled p"
  "uncaught (update_status u p) = uncaught p"
  "alerts (update_status u p) = alerts p"
  "notifications (update_status u p) = notifications p"
  by (simp_all add: update_status_def Let_def)














lemma set_display: "set (display p) = set (table_rows p)"
  by (cases "table_order p") (simp_all add: display_def sort_desc_def)










lemma update_log_untouched: "untouched p (outcome_state (update_log eng s p))"
proof (cases "has_changed p s")
  case False
  then show ?thesis by (simp add: update_log_def outcome_state_def untouched_refl)
next
  case True
  show ?thesis
  proof (cases "json_parse eng s")
    case None
    then show ?thesis using True by (simp add: update_log_def outcome_state_def untouched_refl)
  next
    case (Some S)
    show ?thesis
    proof (cases "log_backup p = []")
      case e: True
      then show ?thesis using True Some by (simp add: update_log_def first_load_untouched)
    next
      case ne: False
      then have "update_log eng s p = later_load eng S p"
        using True Some by (simp add: update_log_def)
      then show ?thesis using later_load_facts [of eng S p] by simp
    qed
  qed
qed

lemma fetch_log_scheduled_baseline:
  assumes "scheduled (fetch_log eng p (Response True s u))"
  shows "log_backup (fetch_log eng p (Response True s u)) = s"
proof (cases "update_log eng s (p\<lparr>scheduled := False\<rparr>)")
  case (Done p1)
  then show ?thesis by (simp add: fetch_log_True update_status_fields)
next
  case (Threw e p1)
  then have "outcome_state (update_log eng s (p\<lparr>scheduled := False\<rparr>)) = p1"
    by (simp add: outcome_state_def)
  with update_log_untouched [of "p\<lparr>scheduled := False\<rparr>" eng s]
  have "\<not> scheduled p1" by (simp add: untouched_def)
  then show ?thesis using assms Threw by (simp add: fetch_log_True)
qed

lemma render_one_Done_shape:
  assumes "render_one t (m, p) = Done (m1, p1)"
  shows "\<exists>e. map_of m t = Some e \<and> m1 = set_entry t (strip_internal e) m
    \<and> table_rows p1 = table_rows p @ [make_row t e]"
proof (cases "map_of m t")
  case None
  then show ?thesis using assms by (simp add: render_one_def)
next
  case (Some e)
  then show ?thesis
    using assms
    by (cases "contact_preview (map_of (strip_internal e) ''from_'')")
      (auto simp: render_one_def Let_def)
qed

lemma render_each_rows:
  assumes "render_each ks (m, p) = Done (m', p')" and "distinct ks"
  shows "table_rows p' = table_rows p @ map (\<lambda>k. make_row k (the (map_of m k))) ks"
  using assms
proof (induction ks arbitrary: m p)
  case Nil
  then show ?case by simp
next
  case (Cons t ks)
  from Cons.prems(1) obtain m1 p1 where d: "render_one t (m, p) = Done (m1, p1)"
    and r: "render_each ks (m1, p1) = Done (m', p')"
    by (auto split: outcome.splits)
  from render_one_Done_shape [OF d] obtain e where e: "map_of m t = Some e"
    "m1 = set_entry t (strip_internal e) m" "table_rows p1 = table_rows p @ [make_row t e]"
    by blast
  have "\<forall>k \<in> set ks. k \<noteq> t" using Cons.prems(2) by auto
  then have "\<forall>k \<in> set ks. map_of m1 k = map_of m k"
    using e(2) by (simp add: map_of_set_entry_other)
  then have "map (\<lambda>k. make_row k (the (map_of m1 k))) ks = map (\<lambda>k. make_row k (the (map_of m k))) ks"
    by simp
  moreover have "table_rows p' = table_rows p1 @ map (\<lambda>k. make_row k (the (map_of m1 k))) ks"
    using Cons.IH [OF r] Cons.prems(2) by simp
  ultimately show ?case using e(1,3) by simp
qed

lemma object_keys_pick:
  assumes "distinct ks" and "set ks \<subseteq> fst ` set m"
  shows "object_keys (pick m ks) = ks"
proof -
  have "filter (\<lambda>k. k \<in> fst ` set m) ks = ks" using assms(2) by (auto simp: filter_id_conv)
  then show ?thesis using assms(1) by (simp add: object_keys_def map_fst_pick)
qed

lemma sort_set_unique:
  assumes "distinct xs" and "distinct ys" and "set xs = set ys"
  shows "sort xs = sort (ys :: string list)"
proof -
  have "mset xs = mset ys" using assms by (simp add: set_eq_iff_mset_eq_distinct)
  then have "mset (sort ys) = mset xs" by simp
  then show ?thesis by (rule properties_for_sort) simp
qed

lemma new_msg_key_facts:
  "distinct (new_msg_key S old_log)"
  "set (new_msg_key S old_log) = fst ` set S - fst ` set old_log"
  by (auto simp: new_msg_key_def jq_not_def set_object_keys distinct_object_keys)

lemma new_msg_key_order_free:
  assumes eq: "set S' = set S" "set old' = set old_log"
  shows "sort (new_msg_key S' old') = sort (new_msg_key S old_log)"
proof -
  have "set (new_msg_key S' old') = set (new_msg_key S old_log)"
    unfolding new_msg_key_facts(2) eq ..
  with new_msg_key_facts(1) [of S' old'] new_msg_key_facts(1) [of S old_log]
  show ?thesis by (rule sort_set_unique)
qed



section \<open>At most one row per key\<close>




section \<open>The delta of a later tick\<close>

text \<open>
  C2, as the code has it. On a tick after the first load that runs to its end, with
  the payload decoded to \<open>S\<close> and the stored baseline decoded to \<open>old_log\<close>, the rows added
  are exactly those for the keys of \<open>S\<close> that are not keys of \<open>old_log\<close> (line 102): as a
  set, the difference of the two key sets, each key once, in ascending order, and the
  same whatever the enumeration order of \<open>S\<close> and of \<open>old_log\<close>. Each row is built from the
  entry that \<open>S\<close> holds under its key: computing the delta assigns to neither \<open>S\<close> nor
  \<open>old_log\<close>, and the entries of \<open>S\<close> are changed only afterwards, by the deletes of
  \<^verbatim>\<open>append_log\<close>. The set that is subtracted is the key set of the previous payload,
  not the set of the keys that have a row.
\<close>

theorem later_tick_delta:
  assumes "log_backup p \<noteq> []" and "has_changed p s"
    and "json_parse eng s = Some S" and "json_parse eng (log_backup p) = Some old_log"
    and "scheduled (fetch_log eng p (Response True s u))"
  shows "\<exists>rows. table_rows (fetch_log eng p (Response True s u)) = table_rows p @ rows
    \<and> map row_ts rows = sort (new_msg_key S old_log)
    \<and> set (map row_ts rows) = fst ` set S - fst ` set old_log
    \<and> distinct (map row_ts rows)
    \<and> (\<forall>r \<in> set rows. \<exists>e. map_of S (row_ts r) = Some e \<and> r = make_row (row_ts r) e)
    \<and> (\<forall>S' old'. set S' = set S \<and> set old' = set old_log \<longrightarrow>
          sort (new_msg_key S' old') = sort (new_msg_key S old_log))"
proof -
  let ?p0 = "p\<lparr>scheduled := False\<rparr>"
  let ?p' = "fetch_log eng p (Response True s u)"
  let ?ks = "new_msg_key S old_log"
  note kf = new_msg_key_facts [of S old_log]
  have sub: "set ?ks \<subseteq> fst ` set S" using kf(2) by auto
  have ll: "update_log eng s ?p0 = page_of (append_log (pick S ?ks) ?p0)"
    using assms(1-4) by (simp add: update_log_def has_changed_def later_load_def)
  obtain m p1 where d: "append_log (pick S ?ks) ?p0 = Done (m, p1)"
  proof (cases "append_log (pick S ?ks) ?p0")
    case (Done st)
    then show ?thesis using that by (cases st) simp
  next
    case (Threw e st)
    obtain m1 q where st: "st = (m1, q)" by (cases st)
    then have o: "outcome_state (append_log (pick S ?ks) ?p0) = (m1, q)"
      using Threw by (simp add: outcome_state_def)
    from append_log_facts [OF o] have "\<not> scheduled q" by (simp add: untouched_def)
    moreover have "?p' = q\<lparr>uncaught := uncaught q @ [e]\<rparr>"
      using ll Threw st by (simp add: fetch_log_True page_of_def)
    ultimately show ?thesis using assms(5) by simp
  qed
  have p': "?p' = (update_status u (p1\<lparr>log_backup := s\<rparr>))\<lparr>scheduled := True\<rparr>"
    using ll d by (simp add: fetch_log_True page_of_def)
  have keys: "sort (object_keys (pick S ?ks)) = sort ?ks"
    using object_keys_pick [OF kf(1) sub] by simp
  from d obtain q where re: "render_each (sort ?ks) (pick S ?ks, ?p0) = Done (m, q)"
    and q: "p1 = q\<lparr>table_order := Col0Des\<rparr>"
    unfolding append_log_def keys by (auto split: outcome.splits)
  let ?rows = "map (\<lambda>k. make_row k (the (map_of (pick S ?ks) k))) (sort ?ks)"
  have "table_rows q = table_rows ?p0 @ ?rows"
    using render_each_rows [OF re] kf(1) by simp
  then have rows: "table_rows ?p' = table_rows p @ ?rows"
    using p' q by (simp add: update_status_fields)
  have ts: "map row_ts ?rows = sort ?ks" by (simp add: comp_def row_ts_make_row)
  have each: "\<exists>e. map_of S (row_ts r) = Some e \<and> r = make_row (row_ts r) e"
    if "r \<in> set ?rows" for r
  proof -
    from that obtain k where k: "k \<in> set ?ks" "r = make_row k (the (map_of (pick S ?ks) k))"
      by auto
    then have "k \<in> fst ` set S" using sub by auto
    then obtain e where e: "map_of S k = Some e"
      by (cases "map_of S k") (auto simp: map_of_eq_None_iff)
    then have "map_of (pick S ?ks) k = Some e" using k(1) by (simp add: map_of_pick)
    then show ?thesis using k(2) e by (simp add: row_ts_make_row)
  qed
  have indep: "\<forall>S' old'. set S' = set S \<and> set old' = set old_log \<longrightarrow>
          sort (new_msg_key S' old') = sort ?ks"
    using new_msg_key_order_free [of _ S _ old_log] by blast
  have s1: "set (map row_ts ?rows) = fst ` set S - fst ` set old_log"
    unfolding ts using kf(2) by simp
  have s2: "distinct (map row_ts ?rows)" unfolding ts using kf(1) by simp
  have s3: "\<forall>r \<in> set ?rows. \<exists>e. map_of S (row_ts r) = Some e \<and> r = make_row (row_ts r) e"
    using each by blast
  from rows ts s1 s2 s3 indep
  have main: "table_rows ?p' = table_rows p @ ?rows \<and> map row_ts ?rows = sort ?ks
    \<and> set (map row_ts ?rows) = fst ` set S - fst ` set old_log
    \<and> distinct (map row_ts ?rows)
    \<and> (\<forall>r \<in> set ?rows. \<exists>e. map_of S (row_ts r) = Some e \<and> r = make_row (row_ts r) e)
    \<and> (\<forall>S' old'. set S' = set S \<and> set old' = set old_log \<longrightarrow>
          sort (new_msg_key S' old') = sort ?ks)"
    by (intro conjI)
  show ?thesis by (rule exI, rule main)
qed

theorem later_tick_delta_witness:
  "log_backup (fetch_log demo_engine init_page (Response True payload_ab [])) \<noteq> []
   \<and> has_changed (fetch_log demo_engine init_page (Response True payload_ab [])) payload_abc
   \<and> json_parse demo_engine payload_abc = Some snapshot_abc
   \<and> json_parse demo_engine
        (log_backup (fetch_log demo_engine init_page (Response True payload_ab []))) =
       Some snapshot_ab
   \<and> scheduled (fetch_log demo_engine
        (fetch_log demo_engine init_page (Response True payload_ab []))
        (Response True payload_abc []))
   \<and> table_rows (fetch_log demo_engine
        (fetch_log demo_engine init_page (Response True payload_ab []))
        (Response True payload_abc [])) =
       table_rows (fetch_log demo_engine init_page (Response True payload_ab [])) @
         [make_row ''C'' entry_ann]"
proof -
  let ?p = "fetch_log demo_engine init_page (Response True payload_ab [])"
  have b: "log_backup ?p \<noteq> []" by code_simp
  have c: "has_changed ?p payload_abc" by code_simp
  have j: "json_parse demo_engine payload_abc = Some snapshot_abc" by code_simp
  have o: "json_parse demo_engine (log_backup ?p) = Some snapshot_ab" by code_simp
  have s: "scheduled (fetch_log demo_engine ?p (Response True payload_abc []))" by code_simp
  have k: "sort (new_msg_key snapshot_abc snapshot_ab) = [''C'']" by code_simp
  have e: "map_of snapshot_abc ''C'' = Some entry_ann" by code_simp
  from later_tick_delta [OF b c j o s] k obtain rows where
    r: "table_rows (fetch_log demo_engine ?p (Response True payload_abc [])) =
          table_rows ?p @ rows" "map row_ts rows = [''C'']"
      "\<forall>r \<in> set rows. \<exists>e. map_of snapshot_abc (row_ts r) = Some e \<and> r = make_row (row_ts r) e"
    by auto
  from r(2) obtain x where x: "rows = [x]" "row_ts x = ''C''" by auto
  with r(3) e have "x = make_row ''C'' entry_ann" by auto
  with r(1) x b c j o s show ?thesis by simp
qed

text \<open>
  C2 as stated fails with \<open>K\<close> the set of the keys already rendered. After the capped
  first load of the eleven keys \<^verbatim>\<open>A\<close> to \<^verbatim>\<open>K\<close> the keys \<^verbatim>\<open>B\<close> to \<^verbatim>\<open>K\<close> have rows. The tick
  that brings the twelfth key \<^verbatim>\<open>L\<close> renders \<^verbatim>\<open>L\<close> alone, while the keys of its snapshot
  that are not yet rendered are \<^verbatim>\<open>A\<close> and \<^verbatim>\<open>L\<close>.
\<close>

theorem delta_not_unrendered_counterexample:
  "rendered (fetch_log engine_growing init_page (Response True payload_a_to_k [])) =
     [''B'', ''C'', ''D'', ''E'', ''F'', ''G'', ''H'', ''I'', ''J'', ''K'']
   \<and> rendered (fetch_log engine_growing
        (fetch_log engine_growing init_page (Response True payload_a_to_k []))
        (Response True payload_a_to_l [])) =
     [''B'', ''C'', ''D'', ''E'', ''F'', ''G'', ''H'', ''I'', ''J'', ''K'', ''L'']
   \<and> json_parse engine_growing payload_a_to_l = Some snapshot_a_to_l
   \<and> jq_not (object_keys snapshot_a_to_l)
        (rendered (fetch_log engine_growing init_page (Response True payload_a_to_k []))) =
     [''A'', ''L'']"
  by code_simp

section \<open>The first load\<close>

text \<open>
  C3 at a first payload of eleven entries whose greatest key \<^verbatim>\<open>K\<close> is listed first, on
  an engine whose sort moves an element only past elements it compares negative with.
  The comparison function of line 87 never returns a negative number, so the key array
  stays as it is and the last ten keys of the enumeration are rendered: \<^verbatim>\<open>A\<close> to \<^verbatim>\<open>J\<close>,
  not the ten greatest keys \<^verbatim>\<open>B\<close> to \<^verbatim>\<open>K\<close>. The button is shown; a click renders the one
  remaining key and hides the button, and a second click changes nothing.
\<close>

theorem first_load_not_ten_greatest:
  "rendered (fetch_log engine_k_first init_page (Response True payload_k_first [])) =
     [''A'', ''B'', ''C'', ''D'', ''E'', ''F'', ''G'', ''H'', ''I'', ''J'']
   \<and> btn_visible (fetch_log engine_k_first init_page (Response True payload_k_first []))
   \<and> rendered (click_load_more
        (fetch_log engine_k_first init_page (Response True payload_k_first []))) =
     [''A'', ''B'', ''C'', ''D'', ''E'', ''F'', ''G'', ''H'', ''I'', ''J'', ''K'']
   \<and> click_load_more (click_load_more
        (fetch_log engine_k_first init_page (Response True payload_k_first []))) =
      click_load_more
        (fetch_log engine_k_first init_page (Response True payload_k_first []))"
  by code_simp

section \<open>The display order\<close>

text \<open>
  C4 at two snapshots. The table is ordered by its first column, which holds the date
  part of the timestamp only, compared as a string. With the three timestamps of two
  years the entry of 31 December 2023 is displayed above those of January 2024; with
  two entries of one day the cells are equal and the earlier entry stays above the
  later one.
\<close>

theorem display_not_chronological:
  "map row_ts (display (snd (outcome_state (append_log snapshot_dates init_page)))) =
     [''12/31/2023, 11:59:59 PM'', ''1/2/2024, 9:00:00 AM'', ''1/1/2024, 1:00:00 PM'']
   \<and> map row_ts (display (snd (outcome_state (append_log snapshot_same_day init_page)))) =
     [''1/1/2024, 1:00:00 PM'', ''1/1/2024, 2:00:00 PM'']
   \<and> map col_time (display (snd (outcome_state (append_log snapshot_same_day init_page)))) =
     [''1/1/2024'', ''1/1/2024'']"
  by code_simp

section \<open>Unchanged payloads\<close>

text \<open>
  C5. Let a tick with status true and payload \<open>s\<close> run to its end, so that a next tick
  follows it. Then the baseline is \<open>s\<close>, whether or not the tick rendered anything. A
  next tick with the same payload does nothing but the status update and the
  rescheduling: the table, the panels, the button and the baseline are as before, and
  the result is the same for every engine, so neither the decoder nor the sort is used.
  Any payload other than \<open>s\<close> is seen as changed by the tick after.
\<close>

theorem unchanged_payload_is_skipped:
  assumes "scheduled (fetch_log eng p (Response True s u))"
  shows "log_backup (fetch_log eng p (Response True s u)) = s
    \<and> fetch_log eng' (fetch_log eng p (Response True s u)) (Response True s u') =
        (update_status u' (fetch_log eng p (Response True s u)))\<lparr>scheduled := True\<rparr>
    \<and> (has_changed (fetch_log eng p (Response True s u)) s' \<longleftrightarrow> s' \<noteq> s)"
proof -
  let ?p1 = "fetch_log eng p (Response True s u)"
  have b: "log_backup ?p1 = s"
    using assms by (rule fetch_log_scheduled_baseline)
  have "update_log eng' s (?p1\<lparr>scheduled := False\<rparr>) = Done (?p1\<lparr>scheduled := False\<rparr>)"
    using b by (simp add: update_log_def has_changed_def)
  then have "fetch_log eng' ?p1 (Response True s u') =
      (update_status u' (?p1\<lparr>scheduled := False, log_backup := s\<rparr>))\<lparr>scheduled := True\<rparr>"
    by (simp add: fetch_log_True)
  also have "?p1\<lparr>scheduled := False, log_backup := s\<rparr> = ?p1\<lparr>scheduled := False\<rparr>"
    using b by simp
  also have "(update_status u' (?p1\<lparr>scheduled := False\<rparr>))\<lparr>scheduled := True\<rparr> =
      (update_status u' ?p1)\<lparr>scheduled := True\<rparr>"
    by (simp add: update_status_def Let_def)
  finally have "fetch_log eng' ?p1 (Response True s u') =
      (update_status u' ?p1)\<lparr>scheduled := True\<rparr>" .
  moreover have "has_changed ?p1 s' \<longleftrightarrow> s' \<noteq> s"
    using b by (auto simp: has_changed_def)
  ultimately show ?thesis using b by blast
qed

theorem unchanged_payload_is_skipped_witness:
  "scheduled (fetch_log demo_engine init_page (Response True payload_ab []))
   \<and> rendered (fetch_log demo_engine init_page (Response True payload_ab [])) = [''A'', ''B'']
   \<and> fetch_log (table_engine [])
        (fetch_log demo_engine init_page (Response True payload_ab []))
        (Response True payload_ab []) =
      (update_status [] (fetch_log demo_engine init_page (Response True payload_ab [])))
        \<lparr>scheduled := True\<rparr>
   \<and> has_changed (fetch_log demo_engine init_page (Response True payload_ab [])) payload_abc"
proof -
  have s: "scheduled (fetch_log demo_engine init_page (Response True payload_ab []))"
    by code_simp
  have r: "rendered (fetch_log demo_engine init_page (Response True payload_ab [])) = [''A'', ''B'']"
    by code_simp
  have n: "payload_abc \<noteq> payload_ab" by code_simp
  show ?thesis
    using unchanged_payload_is_skipped [OF s, of "table_engine []" "[]" payload_abc] s r n
    by simp
qed

section \<open>Transport failure\<close>

text \<open>
  C6, as the code has it. In the history view a transport failure raises the alert
  and sets no new timer. In the editor view the request has no failure handler and the
  timer is set by \<^verbatim>\<open>fetch_log\<close> itself: a transport failure changes nothing on the page,
  and the next tick is scheduled all the same.
\<close>

theorem transport_failure_outcomes:
  "fetch_log eng p TransportFailure =
     p\<lparr>scheduled := False, alerts := alerts p @ [''Please refresh the page!'']\<rparr>
   \<and> editor_fetch_log e TransportFailure = e\<lparr>e_scheduled := True\<rparr>"
  by (simp add: fetch_log_def editor_fetch_log_def)

text \<open>
  C6 as stated fails for the editor view: after a transport failure on the initial
  editor page the next tick is scheduled and no warning has been raised.
\<close>

theorem editor_transport_failure_counterexample:
  "e_scheduled (editor_fetch_log init_editor TransportFailure)
   \<and> e_alerts (editor_fetch_log init_editor TransportFailure) = []"
  by (simp add: editor_fetch_log_def init_editor_def)

section \<open>Decode failure\<close>

text \<open>
  C7, as the code has it. A response with status true whose payload differs from the
  baseline and does not decode leaves the callback by the uncaught SyntaxError: the
  table, the baseline and the status are as before, no alert and no notification is
  raised, and no new timer is set. A response with status false is handled differently:
  one notification, and the next tick is scheduled.
\<close>

theorem decode_failure_aborts_tick:
  "json_parse eng imap_log = None \<and> has_changed p imap_log \<longrightarrow>
     fetch_log eng p (Response True imap_log user_status_msg) =
       p\<lparr>scheduled := False, uncaught := uncaught p @ [SyntaxError]\<rparr>
     \<and> fetch_log eng p (Response False imap_log user_status_msg) =
       p\<lparr>scheduled := True, notifications := notifications p @ [False]\<rparr>"
  by (simp add: fetch_log_def update_log_def has_changed_def)

theorem decode_failure_aborts_tick_witness:
  "json_parse (table_engine []) ''oops'' = None \<and> has_changed init_page ''oops''
   \<and> fetch_log (table_engine []) init_page (Response True ''oops'' []) =
       init_page\<lparr>scheduled := False, uncaught := [SyntaxError]\<rparr>"
  using decode_failure_aborts_tick [of "table_engine []" "''oops''" init_page "[]"]
  by (simp add: json_parse_def table_engine_def has_changed_def init_page_def)

text \<open>
  C7 as stated fails: on the payload \<^verbatim>\<open>oops\<close> the tick ends with an uncaught exception,
  the poll loop is not rescheduled, and nothing is surfaced to the user.
\<close>

theorem decode_failure_counterexample:
  "uncaught (fetch_log (table_engine []) init_page (Response True ''oops'' [])) = [SyntaxError]
   \<and> \<not> scheduled (fetch_log (table_engine []) init_page (Response True ''oops'' []))
   \<and> alerts (fetch_log (table_engine []) init_page (Response True ''oops'' [])) = []
   \<and> notifications (fetch_log (table_engine []) init_page (Response True ''oops'' [])) = []"
  by (simp add: fetch_log_def update_log_def has_changed_def json_parse_def table_engine_def
      init_page_def)

section \<open>The contact preview\<close>




section \<open>Internal fields\<close>

text \<open>
  C9. For every entry whose rendering runs to its end, the object handed to the JSON
  viewer of the message panel and the object the preview text is built from is the
  entry after the five deletions: none of \<^verbatim>\<open>trigger\<close>, \<^verbatim>\<open>error\<close>, \<^verbatim>\<open>log\<close>, \<^verbatim>\<open>timestamp\<close>,
  \<^verbatim>\<open>type\<close> is a key of it, and none is among the keys that the preview text lists.
  The deletion is made on the entry itself, which the snapshot then holds.
\<close>

theorem internal_fields_stripped:
  assumes "render_one timestamp (msg_log, p) = Done (msg_log', p')"
  shows "\<exists>Message ptext. map_of msg_log timestamp = Some Message
    \<and> panel_calls p' = panel_calls p @
        [ContactPanel (json_panel_id timestamp) (map_of Message ''from_''),
         ContactText (json_panel_id timestamp) ptext,
         MessagePanel (json_panel_id timestamp) (strip_internal Message),
         MessageText (json_panel_id timestamp) (preview_msg (strip_internal Message))]
    \<and> set (object_keys (strip_internal Message)) \<inter> set internal_fields = {}
    \<and> set (preview_keys (strip_internal Message)) \<inter> set internal_fields = {}
    \<and> map_of msg_log' timestamp = Some (strip_internal Message)"
proof -
  from assms obtain Message where M: "map_of msg_log timestamp = Some Message"
    by (cases "map_of msg_log timestamp") (auto simp: render_one_def)
  from assms M obtain ptext where
    tx: "contact_preview (map_of (strip_internal Message) ''from_'') = Inr ptext"
    by (cases "contact_preview (map_of (strip_internal Message) ''from_'')")
      (auto simp: render_one_def Let_def)
  have fr: "map_of (strip_internal Message) ''from_'' = map_of Message ''from_''"
    by (simp add: map_of_strip_internal internal_fields_def)
  have calls: "panel_calls p' = panel_calls p @
        [ContactPanel (json_panel_id timestamp) (map_of Message ''from_''),
         ContactText (json_panel_id timestamp) ptext,
         MessagePanel (json_panel_id timestamp) (strip_internal Message),
         MessageText (json_panel_id timestamp) (preview_msg (strip_internal Message))]"
    and m': "msg_log' = set_entry timestamp (strip_internal Message) msg_log"
    using assms M tx fr by (auto simp: render_one_def Let_def)
  have k1: "set (object_keys (strip_internal Message)) \<inter> set internal_fields = {}"
    by (auto simp: keys_strip_internal)
  have "set [''subject'', ''folder''] \<inter> set internal_fields = {}"
    by (simp add: internal_fields_def)
  with k1 have k2: "set (preview_keys (strip_internal Message)) \<inter> set internal_fields = {}"
    by (auto simp: preview_keys_def)
  have "map_of msg_log' timestamp = Some (strip_internal Message)"
    using m' map_of_set_entry_same [OF M] by simp
  with M calls k1 k2 show ?thesis by blast
qed

theorem internal_fields_stripped_witness:
  "render_one ''A'' ([(''A'', entry_full)], init_page) =
     Done (outcome_state (render_one ''A'' ([(''A'', entry_full)], init_page)))
   \<and> set (object_keys (strip_internal entry_full)) \<inter> set internal_fields = {}
   \<and> strip_internal entry_full =
       [(''subject'', JStr ''Hi''), (''from_'', JObj [(''name'', JStr ''Ann'')])]"
proof -
  let ?st = "outcome_state (render_one ''A'' ([(''A'', entry_full)], init_page))"
  have d: "render_one ''A'' ([(''A'', entry_full)], init_page) = Done (fst ?st, snd ?st)"
    by code_simp
  have s: "strip_internal entry_full =
       [(''subject'', JStr ''Hi''), (''from_'', JObj [(''name'', JStr ''Ann'')])]"
    by code_simp
  show ?thesis
    using internal_fields_stripped [OF d] d s by auto
qed

section \<open>The empty payload\<close>




end
